theory Spec2Isabelle
  imports
    Main
    "HOL-Library.Char_ord"
    "HOL-Library.List_Lexorder"
    "HOL-Library.Product_Lexorder"
    "HOL-Library.Multiset"
begin

section \<open>The recording extension of the key-binding dispatcher\<close>

text \<open>
  A shallow embedding of \<^verbatim>\<open>src/mousetrap-record.js\<close>. The module keeps one
  recording session in module-level variables; the embedding threads them through a
  record \<open>state\<close>. Key names are strings; one \<open>char\<close> stands for one code unit of
  the JavaScript string, so \<open>length\<close> is \<^verbatim>\<open>.length\<close> and the order of
  \<open>HOL-Library.List_Lexorder\<close> over \<open>HOL-Library.Char_ord\<close> is the
  code-unit-wise order of \<^verbatim>\<open>x > y\<close>. The key names covered are those whose code
  units fit a \<open>char\<close>, which holds for the names the dispatcher gives to modifiers and
  named keys and for the characters of the Latin-1 range.
\<close>

subsection \<open>JavaScript values\<close>

text \<open>
  The values the module handles: the per-call arguments and the configuration (any
  JavaScript value; a number is an integer here, or NaN), and the elements of a sequence
  array, each a reference to a key array before normalization and a string after it.
\<close>

type_synonym addr = nat

datatype jsval =
    Undefined
  | Null
  | JBool bool
  | JNum int
  | JNaN
  | JStr string
  | JArr addr

datatype error = TypeError

text \<open>ToBoolean: false, 0, NaN, the empty string, null and undefined are falsy.\<close>

fun truthy :: "jsval \<Rightarrow> bool" where
  "truthy Undefined = False"
| "truthy Null = False"
| "truthy (JBool b) = b"
| "truthy (JNum n) = (n \<noteq> 0)"
| "truthy JNaN = False"
| "truthy (JStr s) = (s \<noteq> [])"
| "truthy (JArr a) = True"

text \<open>\<^verbatim>\<open>a || b\<close>: the left operand when it is truthy, the right one otherwise.\<close>

definition js_or :: "jsval \<Rightarrow> jsval \<Rightarrow> jsval" where
  "js_or a b = (if truthy a then a else b)"

subsection \<open>The normalizer\<close>

text \<open>
  The comparison function handed to \<^verbatim>\<open>sort\<close> in \<^verbatim>\<open>_normalizeSequence\<close>
  (lines 188 to 199), branch for branch.
\<close>

definition compareKeys :: "string \<Rightarrow> string \<Rightarrow> int" where
  "compareKeys x y =
     (if length x > 1 \<and> length y = 1 then - 1
      else if length x = 1 \<and> length y > 1 then 1
      else if x > y then 1 else - 1)"

text \<open>
  \<^verbatim>\<open>Array.prototype.sort(comparefn)\<close> belongs to the host. It is taken as a stable
  insertion sort: an element goes in front of the first one it does not compare greater
  than. For a comparison function that is consistent on the elements, every conforming
  host returns the same array.
\<close>

fun insertBy :: "('a \<Rightarrow> 'a \<Rightarrow> int) \<Rightarrow> 'a \<Rightarrow> 'a list \<Rightarrow> 'a list" where
  "insertBy cmp x [] = [x]"
| "insertBy cmp x (y # ys) = (if cmp x y \<le> 0 then x # y # ys else y # insertBy cmp x ys)"

fun js_sort :: "('a \<Rightarrow> 'a \<Rightarrow> int) \<Rightarrow> 'a list \<Rightarrow> 'a list" where
  "js_sort cmp [] = []"
| "js_sort cmp (x # xs) = insertBy cmp x (js_sort cmp xs)"

text \<open>\<^verbatim>\<open>Array.prototype.join('+')\<close> on an array of strings.\<close>

fun js_join :: "string list \<Rightarrow> string" where
  "js_join [] = []"
| "js_join [k] = k"
| "js_join (k # k' # ks) = k @ ''+'' @ js_join (k' # ks)"

text \<open>
  \<^verbatim>\<open>_normalizeSequence(sequence)\<close> (lines 184 to 203). The key arrays live in
  the heap, since the sequence array holds references to them: iteration \<open>i\<close> sorts the
  array that element \<open>i\<close> refers to, in place, and then overwrites element \<open>i\<close> of the
  sequence array with the joined string. An element that is not an array has no
  \<^verbatim>\<open>sort\<close> method, and the call raises a TypeError.
\<close>

type_synonym key_arrays = "addr \<Rightarrow> string list"

fun normalizeSequence :: "key_arrays \<Rightarrow> jsval list \<Rightarrow> error + (key_arrays \<times> jsval list)" where
  "normalizeSequence h [] = Inr (h, [])"
| "normalizeSequence h (JArr a # rest) =
     (let h' = h(a := js_sort compareKeys (h a)) in
      case normalizeSequence h' rest of
        Inl e \<Rightarrow> Inl e
      | Inr (h'', out) \<Rightarrow> Inr (h'', JStr (js_join (h' a)) # out))"
| "normalizeSequence h (v # rest) = Inl TypeError"

text \<open>What normalization makes of one combo: its keys sorted, then joined.\<close>

definition normalizeCombo :: "string list \<Rightarrow> string" where
  "normalizeCombo ks = js_join (js_sort compareKeys ks)"


subsection \<open>The module's state\<close>

text \<open>
  The raw event as the handler reads it: \<^verbatim>\<open>e.type\<close> and \<^verbatim>\<open>e.repeat\<close>.
\<close>

record key_event =
  etype :: string
  repeat :: bool

text \<open>
  The \<^verbatim>\<open>options\<close> object given at construction: a property is absent
  (\<open>None\<close>) or holds a value.
\<close>

record options =
  opt_timeout :: "jsval option"
  opt_preventDefault :: "jsval option"
  opt_noRepeat :: "jsval option"

text \<open>
  The module-level variables of lines 14 to 89, under their names, with
  \<^item> \<open>heap\<close> and \<open>fresh\<close>: the key arrays the variables refer to, and the next
    unused address (an array literal \<^verbatim>\<open>[]\<close> allocates there);
  \<^item> \<open>recordTimer\<close>: \<open>Some d\<close> while a fire is scheduled, after \<open>d\<close> milliseconds;
  \<^item> \<open>recording\<close>: the flag \<^verbatim>\<open>self.recording\<close> of the dispatcher instance;
  \<^item> what the module does to its surroundings: the calls forwarded to the original
    \<^verbatim>\<open>handleKey\<close>, the number of \<^verbatim>\<open>e.preventDefault()\<close> calls, and the
    invocations of the completion and progress callbacks, each with the array passed.
  A callback is a number naming the caller's function; it only receives its argument
  and does not call back into the module.
\<close>

record state =
  config_timeout :: jsval
  config_preventDefault :: jsval
  config_noRepeat :: jsval
  heap :: key_arrays
  fresh :: addr
  recordedSequence :: "jsval list"
  recordedSequenceCallback :: "nat option"
  recordProgressCallback :: "nat option"
  currentRecordedKeys :: addr
  recordedCharacterKey :: bool
  recordTimer :: "jsval option"
  recordTimeout :: jsval
  preventDefault :: jsval
  noRepeat :: jsval
  recording :: bool
  forwarded :: "(string \<times> string list \<times> key_event) list"
  defaultPrevented :: nat
  completed :: "(nat \<times> jsval list) list"
  progressed :: "(nat \<times> jsval list) list"

text \<open>
  Module construction (lines 14 to 89): \<^verbatim>\<open>Object.assign\<close> lets a property of
  \<^verbatim>\<open>options\<close> replace the default, and the session variables start from the
  merged configuration.
\<close>

definition empty_heap :: key_arrays where
  "empty_heap = (\<lambda>a. [])"

definition merged :: "jsval \<Rightarrow> jsval option \<Rightarrow> jsval" where
  "merged d v = (case v of None \<Rightarrow> d | Some x \<Rightarrow> x)"

definition init :: "options \<Rightarrow> state" where
  "init opts =
     \<lparr> config_timeout = merged (JNum 1000) (opt_timeout opts),
       config_preventDefault = merged (JBool False) (opt_preventDefault opts),
       config_noRepeat = merged (JBool False) (opt_noRepeat opts),
       heap = empty_heap,
       fresh = 1,
       recordedSequence = [],
       recordedSequenceCallback = None,
       recordProgressCallback = None,
       currentRecordedKeys = 0,
       recordedCharacterKey = False,
       recordTimer = None,
       recordTimeout = merged (JNum 1000) (opt_timeout opts),
       preventDefault = merged (JBool False) (opt_preventDefault opts),
       noRepeat = merged (JBool False) (opt_noRepeat opts),
       recording = False,
       forwarded = [],
       defaultPrevented = 0,
       completed = [],
       progressed = [] \<rparr>"

definition no_options :: options where
  "no_options = \<lparr> opt_timeout = None, opt_preventDefault = None, opt_noRepeat = None \<rparr>"

subsection \<open>The operations\<close>

text \<open>\<^verbatim>\<open>_restartRecordTimer\<close> (lines 231 to 234): the pending fire is replaced.\<close>

definition restartRecordTimer :: "state \<Rightarrow> state" where
  "restartRecordTimer s = s\<lparr>recordTimer := Some (recordTimeout s)\<rparr>"

text \<open>
  \<^verbatim>\<open>_recordCurrentCombo\<close> (lines 168 to 173): the reference to the current key
  array is pushed, and the variable gets a new empty array.
\<close>

definition recordCurrentCombo :: "state \<Rightarrow> state" where
  "recordCurrentCombo s =
     restartRecordTimer
       (s\<lparr>recordedSequence := recordedSequence s @ [JArr (currentRecordedKeys s)],
          currentRecordedKeys := fresh s,
          heap := (heap s)(fresh s := []),
          fresh := Suc (fresh s),
          recordedCharacterKey := False\<rparr>)"

text \<open>
  Lines 155 to 159 of \<^verbatim>\<open>_recordKey\<close>: \<^verbatim>\<open>concat\<close> makes a new sequence array
  whose elements are the same references, the normalizer runs on it, and the progress
  callback receives it.
\<close>

definition reportProgress :: "state \<Rightarrow> error + state" where
  "reportProgress s =
     (case recordProgressCallback s of
        None \<Rightarrow> Inr s
      | Some p \<Rightarrow>
          (case normalizeSequence (heap s) (recordedSequence s @ [JArr (currentRecordedKeys s)]) of
             Inl e \<Rightarrow> Inl e
           | Inr (h, seq) \<Rightarrow> Inr (s\<lparr>heap := h, progressed := progressed s @ [(p, seq)]\<rparr>)))"

text \<open>
  \<^verbatim>\<open>_recordKey\<close> (lines 139 to 160): the loop returns when it finds the key in the
  current array; otherwise the key is pushed and a key of length one sets the flag
  (lines 149 to 153, \<open>pushKey\<close>), and progress is reported.
\<close>

definition pushKey :: "string \<Rightarrow> state \<Rightarrow> state" where
  "pushKey key s =
     s\<lparr>heap := (heap s)(currentRecordedKeys s := heap s (currentRecordedKeys s) @ [key]),
       recordedCharacterKey := (if length key = 1 then True else recordedCharacterKey s)\<rparr>"

definition recordKey :: "string \<Rightarrow> state \<Rightarrow> error + state" where
  "recordKey key s =
     (if key \<in> set (heap s (currentRecordedKeys s)) then Inr s
      else reportProgress (pushKey key s))"

fun recordKeys :: "string list \<Rightarrow> state \<Rightarrow> error + state" where
  "recordKeys [] s = Inr s"
| "recordKeys (k # ks) s =
     (case recordKey k s of Inl e \<Rightarrow> Inl e | Inr s' \<Rightarrow> recordKeys ks s')"

text \<open>
  \<^verbatim>\<open>_finishRecording\<close> (lines 211 to 221). The stored callback is the closure made
  by \<^verbatim>\<open>record\<close> (lines 255 to 258): it sets the dispatcher's flag to false and
  passes its argument on to the caller's function. \<open>resetRecorded\<close> is lines 217 to
  220, the three assignments that follow whether or not a callback is stored.
\<close>

definition resetRecorded :: "state \<Rightarrow> state" where
  "resetRecorded s =
     s\<lparr>recordedSequence := [],
       recordedSequenceCallback := None,
       currentRecordedKeys := fresh s,
       heap := (heap s)(fresh s := []),
       fresh := Suc (fresh s)\<rparr>"

definition finishRecording :: "state \<Rightarrow> error + state" where
  "finishRecording s =
     (case recordedSequenceCallback s of
        None \<Rightarrow> Inr (resetRecorded s)
      | Some cb \<Rightarrow>
          (case normalizeSequence (heap s) (recordedSequence s) of
             Inl e \<Rightarrow> Inl e
           | Inr (h, seq) \<Rightarrow>
               Inr (resetRecorded
                 (s\<lparr>heap := h, recording := False, completed := completed s @ [(cb, seq)]\<rparr>))))"

text \<open>
  The host runs the timer's function when the scheduled fire comes due; with nothing
  scheduled there is no such event, and the state stays.
\<close>

definition timerFires :: "state \<Rightarrow> error + state" where
  "timerFires s =
     (case recordTimer s of
        None \<Rightarrow> Inr s
      | Some d \<Rightarrow> finishRecording (s\<lparr>recordTimer := None\<rparr>))"

text \<open>
  \<^verbatim>\<open>_handleKey\<close> (lines 99 to 131), which \<^verbatim>\<open>Mousetrap.prototype.handleKey\<close>
  (lines 261 to 264) calls with its own arguments; \<open>applyPreventDefault\<close> is lines
  111 to 113.
\<close>

definition applyPreventDefault :: "state \<Rightarrow> state" where
  "applyPreventDefault s =
     (if truthy (preventDefault s)
      then s\<lparr>defaultPrevented := Suc (defaultPrevented s)\<rparr> else s)"

definition handleKey :: "string \<Rightarrow> string list \<Rightarrow> key_event \<Rightarrow> state \<Rightarrow> error + state" where
  "handleKey character modifiers e s =
     (if truthy (noRepeat s) \<and> repeat e then Inr s
      else if \<not> recording s then
        Inr (s\<lparr>forwarded := forwarded s @ [(character, modifiers, e)]\<rparr>)
      else
        (let s1 = applyPreventDefault s in
         if etype e = ''keydown'' then
           recordKeys (modifiers @ [character])
             (if length character = 1 \<and> recordedCharacterKey s1
              then recordCurrentCombo s1 else s1)
         else if etype e = ''keyup'' \<and> length (heap s1 (currentRecordedKeys s1)) > 0 then
           Inr (recordCurrentCombo s1)
         else Inr s1))"

text \<open>
  \<^verbatim>\<open>Mousetrap.prototype.record\<close> (lines 243 to 259). The progress callback is
  \<open>None\<close> when the argument is \<^verbatim>\<open>undefined\<close> or \<^verbatim>\<open>null\<close>.
\<close>

definition Mousetrap_record ::
  "nat \<Rightarrow> jsval \<Rightarrow> jsval \<Rightarrow> jsval \<Rightarrow> nat option \<Rightarrow> state \<Rightarrow> state" where
  "Mousetrap_record callback timeout pd nr progressCallback s =
     s\<lparr>recording := True,
       recordTimeout := js_or timeout (config_timeout s),
       recordProgressCallback := progressCallback,
       preventDefault := js_or pd (config_preventDefault s),
       noRepeat := js_or nr (config_noRepeat s),
       recordedSequenceCallback := Some callback\<rparr>"

subsection \<open>Runs\<close>

text \<open>
  What happens to the module: a call of \<^verbatim>\<open>record\<close>, a key event arriving at
  \<^verbatim>\<open>handleKey\<close>, or the scheduled fire of the timer. An uncaught error ends the run.
\<close>

datatype event =
    Record nat jsval jsval jsval "nat option"
  | Key string "string list" key_event
  | Fire

fun step :: "event \<Rightarrow> state \<Rightarrow> error + state" where
  "step (Record cb t pd nr pc) s = Inr (Mousetrap_record cb t pd nr pc s)"
| "step (Key c ms e) s = handleKey c ms e s"
| "step Fire s = timerFires s"

fun run :: "event list \<Rightarrow> state \<Rightarrow> error + state" where
  "run [] s = Inr s"
| "run (ev # evs) s = (case step ev s of Inl e \<Rightarrow> Inl e | Inr s' \<Rightarrow> run evs s')"

inductive reachable :: "state \<Rightarrow> bool" where
  reachable_init: "reachable (init opts)"
| reachable_step: "reachable s \<Longrightarrow> step ev s = Inr s' \<Longrightarrow> reachable s'"

definition keydown :: key_event where
  "keydown = \<lparr> etype = ''keydown'', repeat = False \<rparr>"

definition keyup :: key_event where
  "keyup = \<lparr> etype = ''keyup'', repeat = False \<rparr>"

text \<open>The key array behind an element of the stored sequence.\<close>

fun keysOf :: "key_arrays \<Rightarrow> jsval \<Rightarrow> string list" where
  "keysOf h (JArr a) = h a"
| "keysOf h v = []"

definition currentKeys :: "state \<Rightarrow> string list" where
  "currentKeys s = heap s (currentRecordedKeys s)"

definition storedCombos :: "state \<Rightarrow> string list list" where
  "storedCombos s = map (keysOf (heap s)) (recordedSequence s)"

subsection \<open>Notions used in the statements\<close>

text \<open>
  A combo boundary, as \<^verbatim>\<open>_handleKey\<close> decides it: the event is neither dropped
  as a repeat nor forwarded, and it is a key-down of a one-character key while the flag
  is set (re-entry), or a key-up while the current array is not empty (release). These
  are the two calls of \<^verbatim>\<open>_recordCurrentCombo\<close>.
\<close>

fun closesCombo :: "event \<Rightarrow> state \<Rightarrow> bool" where
  "closesCombo (Key c ms e) s =
     (\<not> (truthy (noRepeat s) \<and> repeat e) \<and> recording s \<and>
      (if etype e = ''keydown'' then length c = 1 \<and> recordedCharacterKey s
       else etype e = ''keyup'' \<and> currentKeys s \<noteq> []))"
| "closesCombo ev s = False"

text \<open>
  A stretch of one session without a combo boundary: key events and timer events only
  (a call of \<^verbatim>\<open>record\<close> would start another session), none of them a boundary
  in the state it arrives in.
\<close>

fun isRecord :: "event \<Rightarrow> bool" where
  "isRecord (Record cb t pd nr pc) = True"
| "isRecord ev = False"

fun quiet :: "event list \<Rightarrow> state \<Rightarrow> bool" where
  "quiet [] s = True"
| "quiet (ev # evs) s =
     (\<not> isRecord ev \<and> \<not> closesCombo ev s \<and>
      (case step ev s of Inl e \<Rightarrow> False | Inr s' \<Rightarrow> quiet evs s'))"

text \<open>The order the comparison function induces: a class for the length, then the key.\<close>

definition keyClass :: "string \<Rightarrow> nat" where
  "keyClass k = (if length k > 1 then 1 else if length k = 1 then 2 else 0)"

definition keyRank :: "string \<Rightarrow> nat \<times> string" where
  "keyRank k = (keyClass k, k)"

fun isArr :: "jsval \<Rightarrow> bool" where
  "isArr (JArr a) = True"
| "isArr v = False"

text \<open>The heap after the normalizer has run over the references in \<open>vs\<close>.\<close>

definition sortedAt :: "key_arrays \<Rightarrow> jsval list \<Rightarrow> key_arrays" where
  "sortedAt h vs = (\<lambda>a. if JArr a \<in> set vs then js_sort compareKeys (h a) else h a)"

text \<open>
  What holds in every state the module can be in: the stored sequence holds references
  to allocated key arrays, no key array has a key twice, a recording has its callback, a
  fire is only scheduled while recording, and a one-character key in the current array
  has set the flag.
\<close>

definition consistent :: "state \<Rightarrow> bool" where
  "consistent s \<longleftrightarrow>
     list_all isArr (recordedSequence s) \<and>
     (\<forall>a. JArr a \<in> set (recordedSequence s) \<longrightarrow> a < fresh s) \<and>
     currentRecordedKeys s < fresh s \<and>
     (\<forall>a. distinct (heap s a)) \<and>
     (recording s \<longrightarrow> recordedSequenceCallback s \<noteq> None) \<and>
     (\<not> recording s \<longrightarrow> recordTimer s = None) \<and>
     ((\<exists>k\<in>set (currentKeys s). length k = 1) \<longrightarrow> recordedCharacterKey s)"

text \<open>The variables that adding keys leaves alone.\<close>

definition kept :: "state \<Rightarrow> state \<Rightarrow> bool" where
  "kept s s' \<longleftrightarrow>
     recordedSequence s' = recordedSequence s \<and>
     currentRecordedKeys s' = currentRecordedKeys s \<and>
     fresh s' = fresh s \<and>
     recordTimer s' = recordTimer s \<and>
     recordTimeout s' = recordTimeout s \<and>
     recording s' = recording s \<and>
     recordedSequenceCallback s' = recordedSequenceCallback s \<and>
     recordProgressCallback s' = recordProgressCallback s \<and>
     completed s' = completed s"

section \<open>The normalizer's order\<close>

lemma nonempty_above_empty: "x \<noteq> [] \<Longrightarrow> [] < (x :: string)"
  by (cases x) simp_all

lemma compareKeys_le: "compareKeys x y \<le> 0 \<longleftrightarrow> keyRank x \<le> keyRank y"
proof -
  consider "x = []" | "x \<noteq> []" "y = []" | "length x = 1" "length y = 1"
    | "length x = 1" "length y > 1" | "length x > 1" "length y = 1"
    | "length x > 1" "length y > 1"
    by (cases x; cases y; simp; linarith)
  then show ?thesis
  proof cases
    case 1
    then show ?thesis by (simp add: compareKeys_def keyRank_def keyClass_def)
  next
    case 2
    then show ?thesis
      using nonempty_above_empty[of x] by (simp add: compareKeys_def keyRank_def keyClass_def)
  next
    case 3
    then show ?thesis by (simp add: compareKeys_def keyRank_def keyClass_def not_less not_le)
  next
    case 4
    then show ?thesis by (simp add: compareKeys_def keyRank_def keyClass_def)
  next
    case 5
    then show ?thesis by (simp add: compareKeys_def keyRank_def keyClass_def)
  next
    case 6
    then show ?thesis by (simp add: compareKeys_def keyRank_def keyClass_def not_less not_le)
  qed
qed

lemma insertBy_insort: "insertBy compareKeys x ys = insort_key keyRank x ys"
  by (induction ys) (simp_all add: compareKeys_le)

lemma js_sort_sort_key: "js_sort compareKeys ks = sort_key keyRank ks"
  by (induction ks) (simp_all add: insertBy_insort)

lemma js_sort_idem: "js_sort compareKeys (js_sort compareKeys ks) = js_sort compareKeys ks"
  by (simp add: js_sort_sort_key sort_key_id_if_sorted)

lemma set_js_sort: "set (js_sort compareKeys ks) = set ks"
  by (simp add: js_sort_sort_key)

lemma distinct_js_sort: "distinct (js_sort compareKeys ks) = distinct ks"
  by (simp add: js_sort_sort_key)

lemma normalizeCombo_sorted: "normalizeCombo (js_sort compareKeys ks) = normalizeCombo ks"
  by (simp add: normalizeCombo_def js_sort_idem)

lemma sorted_keyRank_same_class:
  assumes "\<forall>k\<in>set xs. keyClass k = c" and "sorted xs"
  shows "sorted (map keyRank xs)"
  using assms by (induction xs) (auto simp: keyRank_def)

lemma inj_keyRank: "inj_on keyRank A"
  by (auto simp: inj_on_def keyRank_def)

lemma js_sort_groups:
  assumes "distinct ks" and "[] \<notin> set ks"
  shows "js_sort compareKeys ks =
           sort [k \<leftarrow> ks. length k > 1] @ sort [k \<leftarrow> ks. length k = 1]"
proof -
  let ?M = "sort [k \<leftarrow> ks. length k > 1]" and ?C = "sort [k \<leftarrow> ks. length k = 1]"
  have M: "sorted (map keyRank ?M)"
    by (rule sorted_keyRank_same_class[where c = 1]) (auto simp: keyClass_def)
  have C: "sorted (map keyRank ?C)"
    by (rule sorted_keyRank_same_class[where c = 2]) (auto simp: keyClass_def)
  have cross: "\<forall>x\<in>set ?M. \<forall>y\<in>set ?C. keyRank x \<le> keyRank y"
    by (auto simp: keyRank_def keyClass_def)
  have sorted: "sorted (map keyRank (?M @ ?C))"
    using M C cross by (simp add: sorted_append)
  have dist: "distinct (?M @ ?C)"
    using assms(1) by auto
  have len: "\<And>k. k \<in> set ks \<Longrightarrow> length k > 1 \<or> length k = 1"
    using assms(2) by (metis length_0_conv less_one linorder_neqE_nat)
  have sets: "set (sort_key keyRank ks) = set (?M @ ?C)"
    using len by auto
  have "sort_key keyRank ks = ?M @ ?C"
  proof (rule map_sorted_distinct_set_unique[where f = keyRank])
    show "inj_on keyRank (set (sort_key keyRank ks) \<union> set (?M @ ?C))" by (rule inj_keyRank)
    show "sorted (map keyRank (sort_key keyRank ks))" by simp
    show "distinct (map keyRank (sort_key keyRank ks))"
      using assms(1) by (simp add: distinct_map inj_keyRank)
    show "sorted (map keyRank (?M @ ?C))" by (rule sorted)
    show "distinct (map keyRank (?M @ ?C))"
      using dist by (simp only: distinct_map inj_keyRank simp_thms)
    show "set (sort_key keyRank ks) = set (?M @ ?C)" by (rule sets)
  qed
  then show ?thesis by (simp add: js_sort_sort_key)
qed

section \<open>The normalizer on a sequence of key arrays\<close>

lemma isArr_iff: "isArr v \<longleftrightarrow> (\<exists>a. v = JArr a)"
  by (cases v) simp_all

lemma normalizeSequence_arrays:
  "list_all isArr vs \<Longrightarrow>
   normalizeSequence h vs =
     Inr (sortedAt h vs, map (\<lambda>v. JStr (normalizeCombo (keysOf h v))) vs)"
proof (induction vs arbitrary: h)
  case Nil
  then show ?case by (simp add: sortedAt_def)
next
  case (Cons v vs)
  then obtain a where v: "v = JArr a" by (auto simp: isArr_iff)
  let ?h = "h(a := js_sort compareKeys (h a))"
  have rest: "list_all isArr vs" using Cons.prems by simp
  have heap: "sortedAt ?h vs = sortedAt h (JArr a # vs)"
    by (rule ext) (simp add: sortedAt_def js_sort_idem)
  have out: "map (\<lambda>v. JStr (normalizeCombo (keysOf ?h v))) vs
           = map (\<lambda>v. JStr (normalizeCombo (keysOf h v))) vs"
  proof (rule map_cong[OF refl])
    fix w assume "w \<in> set vs"
    with rest obtain b where "w = JArr b" by (auto simp: list_all_iff isArr_iff)
    then show "JStr (normalizeCombo (keysOf ?h w)) = JStr (normalizeCombo (keysOf h w))"
      by (simp add: normalizeCombo_sorted)
  qed
  have "normalizeSequence ?h vs =
          Inr (sortedAt ?h vs, map (\<lambda>v. JStr (normalizeCombo (keysOf ?h v))) vs)"
    by (rule Cons.IH[OF rest])
  then have ih: "normalizeSequence ?h vs =
          Inr (sortedAt h (JArr a # vs), map (\<lambda>v. JStr (normalizeCombo (keysOf h v))) vs)"
    by (simp only: heap out)
  have "normalizeSequence h (JArr a # vs) =
          Inr (sortedAt h (JArr a # vs),
               JStr (js_join (?h a)) # map (\<lambda>v. JStr (normalizeCombo (keysOf h v))) vs)"
    by (simp only: normalizeSequence.simps Let_def ih sum.case prod.case)
  then show ?case
    by (simp add: v normalizeCombo_def)
qed

lemma set_sortedAt: "set (sortedAt h vs a) = set (h a)"
  by (simp add: sortedAt_def set_js_sort)

lemma distinct_sortedAt: "distinct (sortedAt h vs a) = distinct (h a)"
  by (simp add: sortedAt_def distinct_js_sort)

lemma sortedAt_idem: "sortedAt (sortedAt h vs) vs = sortedAt h vs"
  by (rule ext) (simp add: sortedAt_def js_sort_idem)

text \<open>
  C3. For every combo of distinct, non-empty key names, normalization puts the keys
  longer than one character first, in lexicographic order, then the one-character keys,
  in lexicographic order, and joins them with \<open>+\<close>: that is the string the normalizer
  writes into the sequence, and the order it leaves in the key array. The combo of \<open>k\<close>
  and \<open>ctrl\<close> becomes \<open>ctrl+k\<close>.
\<close>

theorem normalize_orders_keys:
  assumes "distinct (h a)" and "[] \<notin> set (h a)"
  shows "normalizeSequence h [JArr a] =
           Inr (h(a := sort [k \<leftarrow> h a. length k > 1] @ sort [k \<leftarrow> h a. length k = 1]),
                [JStr (js_join (sort [k \<leftarrow> h a. length k > 1] @ sort [k \<leftarrow> h a. length k = 1]))])
         \<and> normalizeCombo (h a) =
             js_join (sort [k \<leftarrow> h a. length k > 1] @ sort [k \<leftarrow> h a. length k = 1])
         \<and> normalizeCombo [''k'', ''ctrl''] = ''ctrl+k''"
proof -
  have "normalizeCombo [''k'', ''ctrl''] = ''ctrl+k''"
    by (simp add: normalizeCombo_def compareKeys_def)
  then show ?thesis
    using js_sort_groups[OF assms] by (simp add: normalizeCombo_def)
qed

theorem normalize_orders_keys_witness:
  "distinct [''k'', ''ctrl'', ''a'', ''shift''] \<and> [] \<notin> set [''k'', ''ctrl'', ''a'', ''shift''] \<and>
   normalizeSequence (empty_heap(0 := [''k'', ''ctrl'', ''a'', ''shift''])) [JArr 0] =
     Inr (empty_heap(0 := [''ctrl'', ''shift'', ''a'', ''k'']), [JStr ''ctrl+shift+a+k''])"
proof -
  let ?h = "empty_heap(0 := [''k'', ''ctrl'', ''a'', ''shift''])"
  show ?thesis
    using normalize_orders_keys[of ?h 0] by simp
qed

section \<open>What every reachable state satisfies\<close>

lemma kept_refl: "kept s s"
  by (simp add: kept_def)

lemma kept_trans: "kept s s' \<Longrightarrow> kept s' s'' \<Longrightarrow> kept s s''"
  by (simp add: kept_def)

lemma reportProgress_consistent:
  assumes "consistent s"
  shows "\<exists>s'. reportProgress s = Inr s' \<and> consistent s' \<and> kept s s' \<and>
              recordedCharacterKey s' = recordedCharacterKey s \<and>
              (\<forall>a. set (heap s' a) = set (heap s a))"
proof (cases "recordProgressCallback s")
  case None
  with assms show ?thesis by (simp add: reportProgress_def kept_def)
next
  case (Some p)
  have arr: "list_all isArr (recordedSequence s @ [JArr (currentRecordedKeys s)])"
    using assms by (simp add: consistent_def)
  show ?thesis
    using assms
    by (simp add: reportProgress_def Some normalizeSequence_arrays[OF arr] consistent_def kept_def
        currentKeys_def set_sortedAt distinct_sortedAt)
qed

lemma pushKey_consistent:
  assumes "consistent s" and "k \<notin> set (heap s (currentRecordedKeys s))"
  shows "consistent (pushKey k s)"
  using assms by (auto simp: consistent_def currentKeys_def pushKey_def)

lemma recordKey_consistent:
  assumes "consistent s"
  shows "\<exists>s'. recordKey k s = Inr s' \<and> consistent s' \<and> kept s s' \<and>
              set (currentKeys s') = insert k (set (currentKeys s))"
proof (cases "k \<in> set (heap s (currentRecordedKeys s))")
  case True
  with assms show ?thesis by (auto simp: recordKey_def kept_def currentKeys_def)
next
  case False
  have k1: "kept s (pushKey k s)" by (simp add: kept_def pushKey_def)
  from reportProgress_consistent[OF pushKey_consistent[OF assms False]] obtain s' where
    s': "reportProgress (pushKey k s) = Inr s'" "consistent s'" "kept (pushKey k s) s'"
      "\<forall>a. set (heap s' a) = set (heap (pushKey k s) a)" by blast
  have "set (currentKeys s') = insert k (set (currentKeys s))"
    using s'(3,4) by (simp add: currentKeys_def kept_def pushKey_def)
  with k1 False s' show ?thesis
    by (auto simp: recordKey_def intro: kept_trans)
qed

lemma recordKeys_consistent:
  "consistent s \<Longrightarrow>
   \<exists>s'. recordKeys ks s = Inr s' \<and> consistent s' \<and> kept s s' \<and>
        set (currentKeys s') = set ks \<union> set (currentKeys s)"
proof (induction ks arbitrary: s)
  case Nil
  then show ?case by (simp add: kept_refl)
next
  case (Cons k ks)
  from recordKey_consistent[OF Cons.prems, of k] obtain s1 where
    s1: "recordKey k s = Inr s1" "consistent s1" "kept s s1"
      "set (currentKeys s1) = insert k (set (currentKeys s))" by blast
  from Cons.IH[OF s1(2)] obtain s' where
    "recordKeys ks s1 = Inr s'" "consistent s'" "kept s1 s'"
    "set (currentKeys s') = set ks \<union> set (currentKeys s1)" by blast
  with s1 show ?case by (auto intro: kept_trans)
qed

lemma recordCurrentCombo_consistent:
  "consistent s \<Longrightarrow> recording s \<Longrightarrow> consistent (recordCurrentCombo s)"
  by (auto simp: consistent_def recordCurrentCombo_def restartRecordTimer_def currentKeys_def
      less_Suc_eq)

lemma storedCombos_recordCurrentCombo:
  assumes "consistent s"
  shows "storedCombos (recordCurrentCombo s) = storedCombos s @ [currentKeys s]"
proof -
  have "\<And>v. v \<in> set (recordedSequence s) \<Longrightarrow>
          keysOf ((heap s)(fresh s := [])) v = keysOf (heap s) v"
  proof -
    fix v assume v: "v \<in> set (recordedSequence s)"
    with assms obtain a where "v = JArr a" by (auto simp: consistent_def list_all_iff isArr_iff)
    with v assms show "keysOf ((heap s)(fresh s := [])) v = keysOf (heap s) v"
      by (auto simp: consistent_def)
  qed
  moreover have "currentRecordedKeys s \<noteq> fresh s"
    using assms by (auto simp: consistent_def)
  ultimately show ?thesis
    by (simp add: storedCombos_def recordCurrentCombo_def restartRecordTimer_def currentKeys_def)
qed

lemma applyPreventDefault_fields [simp]:
  "recording (applyPreventDefault s) = recording s"
  "recordTimer (applyPreventDefault s) = recordTimer s"
  "recordTimeout (applyPreventDefault s) = recordTimeout s"
  "completed (applyPreventDefault s) = completed s"
  "recordedCharacterKey (applyPreventDefault s) = recordedCharacterKey s"
  "currentKeys (applyPreventDefault s) = currentKeys s"
  "storedCombos (applyPreventDefault s) = storedCombos s"
  "recordedSequence (applyPreventDefault s) = recordedSequence s"
  "heap (applyPreventDefault s) = heap s"
  "currentRecordedKeys (applyPreventDefault s) = currentRecordedKeys s"
  by (simp_all add: applyPreventDefault_def currentKeys_def storedCombos_def)

lemma applyPreventDefault_consistent [simp]:
  "consistent (applyPreventDefault s) = consistent s"
  by (simp add: applyPreventDefault_def consistent_def currentKeys_def)

text \<open>The branches of \<^verbatim>\<open>_handleKey\<close>, one lemma each.\<close>

lemma handleKey_dropped:
  "truthy (noRepeat s) \<and> repeat e \<Longrightarrow> handleKey c ms e s = Inr s"
  by (simp add: handleKey_def)

lemma handleKey_forwards:
  assumes "\<not> (truthy (noRepeat s) \<and> repeat e)" and "\<not> recording s"
  shows "handleKey c ms e s = Inr (s\<lparr>forwarded := forwarded s @ [(c, ms, e)]\<rparr>)"
proof -
  have nr: "(truthy (noRepeat s) \<and> repeat e) = False" using assms(1) by simp
  show ?thesis using assms(2) by (simp add: handleKey_def nr)
qed

lemma handleKey_reentry:
  assumes "\<not> (truthy (noRepeat s) \<and> repeat e)" and "recording s"
    and "etype e = ''keydown''" and "length c = 1 \<and> recordedCharacterKey s"
  shows "handleKey c ms e s =
           recordKeys (ms @ [c]) (recordCurrentCombo (applyPreventDefault s))"
proof -
  have nr: "(truthy (noRepeat s) \<and> repeat e) = False" using assms(1) by simp
  show ?thesis
    using assms(2,3,4) by (simp add: handleKey_def Let_def nr del: recordKeys.simps)
qed

lemma handleKey_keydown:
  assumes "\<not> (truthy (noRepeat s) \<and> repeat e)" and "recording s"
    and "etype e = ''keydown''" and "\<not> (length c = 1 \<and> recordedCharacterKey s)"
  shows "handleKey c ms e s = recordKeys (ms @ [c]) (applyPreventDefault s)"
proof -
  have nr: "(truthy (noRepeat s) \<and> repeat e) = False" using assms(1) by simp
  have ne: "(length c = Suc 0 \<and> recordedCharacterKey s) = False" using assms(4) by simp
  show ?thesis
    using assms(2,3) by (simp add: handleKey_def Let_def nr ne del: recordKeys.simps)
qed

lemma handleKey_release:
  assumes "\<not> (truthy (noRepeat s) \<and> repeat e)" and "recording s"
    and "etype e \<noteq> ''keydown''" and "etype e = ''keyup'' \<and> currentKeys s \<noteq> []"
  shows "handleKey c ms e s = Inr (recordCurrentCombo (applyPreventDefault s))"
proof -
  have nr: "(truthy (noRepeat s) \<and> repeat e) = False" using assms(1) by simp
  show ?thesis
    using assms(2,3,4) by (simp add: handleKey_def Let_def currentKeys_def nr)
qed

lemma handleKey_other:
  assumes "\<not> (truthy (noRepeat s) \<and> repeat e)" and "recording s"
    and "etype e \<noteq> ''keydown''" and "\<not> (etype e = ''keyup'' \<and> currentKeys s \<noteq> [])"
  shows "handleKey c ms e s = Inr (applyPreventDefault s)"
proof -
  have nr: "(truthy (noRepeat s) \<and> repeat e) = False" using assms(1) by simp
  have ne: "(etype e = ''keyup'' \<and> heap s (currentRecordedKeys s) \<noteq> []) = False"
    using assms(4) by (simp add: currentKeys_def)
  show ?thesis
    using assms(2,3) by (simp add: handleKey_def Let_def nr ne)
qed

lemma handleKey_consistent:
  assumes "consistent s"
  shows "\<exists>s'. handleKey c ms e s = Inr s' \<and> consistent s'"
proof -
  consider "truthy (noRepeat s) \<and> repeat e"
    | "\<not> (truthy (noRepeat s) \<and> repeat e)" "\<not> recording s"
    | "\<not> (truthy (noRepeat s) \<and> repeat e)" "recording s" "etype e = ''keydown''"
      "length c = 1 \<and> recordedCharacterKey s"
    | "\<not> (truthy (noRepeat s) \<and> repeat e)" "recording s" "etype e = ''keydown''"
      "\<not> (length c = 1 \<and> recordedCharacterKey s)"
    | "\<not> (truthy (noRepeat s) \<and> repeat e)" "recording s" "etype e \<noteq> ''keydown''"
      "etype e = ''keyup'' \<and> currentKeys s \<noteq> []"
    | "\<not> (truthy (noRepeat s) \<and> repeat e)" "recording s" "etype e \<noteq> ''keydown''"
      "\<not> (etype e = ''keyup'' \<and> currentKeys s \<noteq> [])"
    by blast
  then show ?thesis
  proof cases
    case 1
    with assms show ?thesis by (simp add: handleKey_dropped)
  next
    case 2
    have "consistent (s\<lparr>forwarded := forwarded s @ [(c, ms, e)]\<rparr>)"
      using assms by (simp add: consistent_def currentKeys_def)
    with 2 show ?thesis by (simp add: handleKey_forwards)
  next
    case 3
    have "consistent (recordCurrentCombo (applyPreventDefault s))"
      using assms 3(2) by (intro recordCurrentCombo_consistent) simp_all
    from recordKeys_consistent[OF this, of "ms @ [c]"] show ?thesis
      by (auto simp: handleKey_reentry[OF 3] simp del: recordKeys.simps)
  next
    case 4
    have "consistent (applyPreventDefault s)" using assms by simp
    from recordKeys_consistent[OF this, of "ms @ [c]"] show ?thesis
      by (auto simp: handleKey_keydown[OF 4] simp del: recordKeys.simps)
  next
    case 5
    have "consistent (recordCurrentCombo (applyPreventDefault s))"
      using assms 5(2) by (intro recordCurrentCombo_consistent) simp_all
    then show ?thesis by (simp add: handleKey_release[OF 5])
  next
    case 6
    with assms show ?thesis by (simp add: handleKey_other[OF 6])
  qed
qed

lemma resetRecorded_consistent:
  "consistent s \<Longrightarrow> \<not> recording s \<Longrightarrow> consistent (resetRecorded s)"
  by (simp add: consistent_def resetRecorded_def currentKeys_def)

lemma finishRecording_consistent:
  assumes "consistent s" and "recordTimer s = None"
  shows "\<exists>s'. finishRecording s = Inr s' \<and> consistent s'"
proof (cases "recordedSequenceCallback s")
  case None
  with assms have "\<not> recording s" by (simp add: consistent_def)
  with assms None show ?thesis
    by (simp add: finishRecording_def resetRecorded_consistent)
next
  case (Some cb)
  have arr: "list_all isArr (recordedSequence s)"
    using assms by (simp add: consistent_def)
  show ?thesis
    using assms
    by (simp add: finishRecording_def Some normalizeSequence_arrays[OF arr] consistent_def
        resetRecorded_def currentKeys_def distinct_sortedAt)
qed

lemma timerFires_consistent:
  assumes "consistent s"
  shows "\<exists>s'. timerFires s = Inr s' \<and> consistent s'"
proof (cases "recordTimer s")
  case None
  with assms show ?thesis by (simp add: timerFires_def)
next
  case (Some d)
  have "consistent (s\<lparr>recordTimer := None\<rparr>)"
    using assms by (simp add: consistent_def currentKeys_def)
  from finishRecording_consistent[OF this] show ?thesis
    by (simp add: timerFires_def Some)
qed

lemma Mousetrap_record_consistent:
  "consistent s \<Longrightarrow> consistent (Mousetrap_record cb t pd nr pc s)"
  by (simp add: consistent_def Mousetrap_record_def currentKeys_def)

lemma init_consistent: "consistent (init opts)"
  by (simp add: consistent_def init_def currentKeys_def empty_heap_def)

lemma step_consistent:
  "consistent s \<Longrightarrow> \<exists>s'. step ev s = Inr s' \<and> consistent s'"
  by (cases ev)
    (simp_all add: Mousetrap_record_consistent handleKey_consistent timerFires_consistent)

lemma reachable_consistent: "reachable s \<Longrightarrow> consistent s"
proof (induction rule: reachable.induct)
  case (reachable_init opts)
  show ?case by (rule init_consistent)
next
  case (reachable_step s ev s')
  with step_consistent[of s ev] show ?case by auto
qed

lemma reachable_run: "reachable s \<Longrightarrow> run evs s = Inr s' \<Longrightarrow> reachable s'"
proof (induction evs arbitrary: s)
  case Nil
  then show ?case by simp
next
  case (Cons ev evs)
  then obtain s1 where s1: "step ev s = Inr s1" "run evs s1 = Inr s'"
    by (auto split: sum.splits)
  from Cons.prems(1) s1(1) have "reachable s1" by (rule reachable_step)
  with Cons.IH s1(2) show ?case by blast
qed

lemma run_consistent:
  "consistent s \<Longrightarrow> \<exists>s'. run evs s = Inr s' \<and> consistent s'"
proof (induction evs arbitrary: s)
  case Nil
  then show ?case by simp
next
  case (Cons ev evs)
  from step_consistent[OF Cons.prems, of ev] obtain s1 where
    "step ev s = Inr s1" "consistent s1" by blast
  with Cons.IH[of s1] show ?case by simp
qed

section \<open>Completion\<close>

lemmas eval_defs = init_def no_options_def Mousetrap_record_def handleKey_def keydown_def
  keyup_def js_or_def merged_def recordKey_def pushKey_def reportProgress_def
  recordCurrentCombo_def restartRecordTimer_def storedCombos_def empty_heap_def
  timerFires_def finishRecording_def resetRecorded_def currentKeys_def compareKeys_def
  applyPreventDefault_def

lemma finishRecording_result:
  assumes "list_all isArr (recordedSequence s)" and "recordedSequenceCallback s = Some cb"
  shows "finishRecording s =
           Inr (resetRecorded
             (s\<lparr>heap := sortedAt (heap s) (recordedSequence s), recording := False,
                completed := completed s @
                  [(cb, map (\<lambda>ks. JStr (normalizeCombo ks)) (storedCombos s))]\<rparr>))"
  by (simp add: finishRecording_def assms normalizeSequence_arrays storedCombos_def comp_def)

text \<open>
  C1. When the timer fires in a reachable state with the recording flag set, the
  completion callback is registered and is invoked once, with the stored sequence
  normalized (each combo's keys sorted by the comparison function and joined with
  \<open>+\<close>); afterwards the sequence and the current key array are empty, the callback
  reference is cleared and the recording flag is false.
\<close>

theorem finish_delivers_and_resets:
  assumes "reachable s" and "recording s" and "recordTimer s = Some d"
  shows "\<exists>cb s'. recordedSequenceCallback s = Some cb \<and> step Fire s = Inr s' \<and>
           completed s' =
             completed s @ [(cb, map (\<lambda>ks. JStr (normalizeCombo ks)) (storedCombos s))] \<and>
           recordedSequence s' = [] \<and> currentKeys s' = [] \<and>
           recordedSequenceCallback s' = None \<and> \<not> recording s'"
proof -
  have c: "consistent s" using assms(1) by (rule reachable_consistent)
  with assms(2) obtain cb where cb: "recordedSequenceCallback s = Some cb"
    by (auto simp: consistent_def)
  have arr: "list_all isArr (recordedSequence (s\<lparr>recordTimer := None\<rparr>))"
    using c by (simp add: consistent_def)
  have cb': "recordedSequenceCallback (s\<lparr>recordTimer := None\<rparr>) = Some cb"
    using cb by simp
  show ?thesis
    using cb assms(3)
    by (simp add: timerFires_def finishRecording_result[OF arr cb'] resetRecorded_def
        currentKeys_def storedCombos_def)
qed

theorem finish_delivers_and_resets_witness:
  "\<exists>s. run [Record 7 Undefined Undefined Undefined None,
             Key ''k'' [''ctrl''] keydown, Key ''k'' [''ctrl''] keyup] (init no_options) = Inr s \<and>
       recording s \<and> recordTimer s = Some (JNum 1000) \<and>
       (\<exists>s'. step Fire s = Inr s' \<and> completed s' = [(7, [JStr ''ctrl+k''])] \<and>
             recordedSequence s' = [] \<and> currentKeys s' = [] \<and>
             recordedSequenceCallback s' = None \<and> \<not> recording s')"
proof -
  let ?evs = "[Record 7 Undefined Undefined Undefined None,
               Key ''k'' [''ctrl''] keydown, Key ''k'' [''ctrl''] keyup]"
  obtain s where s: "run ?evs (init no_options) = Inr s"
    using run_consistent[OF init_consistent] by blast
  have r: "reachable s" using reachable_init s by (rule reachable_run)
  have f: "recording s" "recordTimer s = Some (JNum 1000)" "completed s = []"
      "storedCombos s = [[''ctrl'', ''k'']]" "recordedSequenceCallback s = Some 7"
    using s
    by (auto simp: eval_defs)
  from finish_delivers_and_resets[OF r f(1,2)] obtain cb s' where
    s': "recordedSequenceCallback s = Some cb" "step Fire s = Inr s'"
      "completed s' =
         completed s @ [(cb, map (\<lambda>ks. JStr (normalizeCombo ks)) (storedCombos s))]"
      "recordedSequence s' = []" "currentKeys s' = []"
      "recordedSequenceCallback s' = None" "\<not> recording s'"
    by blast
  have "completed s' = [(7, [JStr ''ctrl+k''])]"
    using s'(1,3) f(3,4,5) by (simp add: normalizeCombo_def compareKeys_def)
  with s s' f(1,2) show ?thesis by blast
qed

lemma run_append:
  "run (evs @ evs') s = (case run evs s of Inl e \<Rightarrow> Inl e | Inr s' \<Rightarrow> run evs' s')"
  by (induction evs arbitrary: s) (simp_all split: sum.splits)

section \<open>Combo boundaries\<close>

text \<open>
  C2. In a reachable state, a key-down that is processed while recording, for a
  one-character key, with a one-character key already in the current combo, first closes
  the current combo: the handler's result is that of adding the modifiers and the key to
  the state \<open>s1\<close> in which the old key array has been appended to the stored sequence,
  the current key array is empty, the flag is cleared and the timer is restarted with
  the session's timeout; adding them succeeds and leaves exactly the new keys in the
  current combo. Hence \<open>a\<close> then \<open>b\<close>, with no key-up in between, gives the combos
  \<open>a\<close> and \<open>b\<close>, and after the releases and the timer's fire the callback receives
  the sequence of \<open>a\<close> and \<open>b\<close>.
\<close>

theorem reentry_closes_first:
  assumes "reachable s" and "recording s" and "\<not> (truthy (noRepeat s) \<and> repeat e)"
    and "etype e = ''keydown''" and "length c = 1"
    and "\<exists>k\<in>set (currentKeys s). length k = 1"
  shows "(\<exists>s1 s'. handleKey c ms e s = recordKeys (ms @ [c]) s1 \<and>
           storedCombos s1 = storedCombos s @ [currentKeys s] \<and>
           currentKeys s1 = [] \<and> \<not> recordedCharacterKey s1 \<and>
           recordTimer s1 = Some (recordTimeout s) \<and>
           recordKeys (ms @ [c]) s1 = Inr s' \<and>
           recordedSequence s' = recordedSequence s1 \<and>
           set (currentKeys s') = set (ms @ [c])) \<and>
         (\<exists>u v. run [Record cb Undefined Undefined Undefined None,
                     Key ''a'' [] keydown, Key ''b'' [] keydown] (init no_options) = Inr u \<and>
                storedCombos u = [[''a'']] \<and> currentKeys u = [''b''] \<and>
                run [Key ''a'' [] keyup, Key ''b'' [] keyup, Fire] u = Inr v \<and>
                completed v = [(cb, [JStr ''a'', JStr ''b''])])"
proof -
  have c: "consistent s" using assms(1) by (rule reachable_consistent)
  let ?s1 = "recordCurrentCombo (applyPreventDefault s)"
  have flag: "length c = 1 \<and> recordedCharacterKey s"
    using c assms(5,6) by (auto simp: consistent_def)
  have hk: "handleKey c ms e s = recordKeys (ms @ [c]) ?s1"
    using assms(3,2,4) flag by (rule handleKey_reentry)
  have c1: "consistent ?s1"
    using c assms(2) by (intro recordCurrentCombo_consistent) simp_all
  have st: "storedCombos ?s1 = storedCombos s @ [currentKeys s]"
    using storedCombos_recordCurrentCombo[of "applyPreventDefault s"] c by simp
  have cur: "currentKeys ?s1 = []" "\<not> recordedCharacterKey ?s1"
    "recordTimer ?s1 = Some (recordTimeout s)"
    by (simp_all add: recordCurrentCombo_def restartRecordTimer_def currentKeys_def)
  from recordKeys_consistent[OF c1, of "ms @ [c]"] obtain s' where
    s': "recordKeys (ms @ [c]) ?s1 = Inr s'" "kept ?s1 s'"
      "set (currentKeys s') = set (ms @ [c]) \<union> set (currentKeys ?s1)" by blast
  have "recordedSequence s' = recordedSequence ?s1" using s'(2) by (simp add: kept_def)
  moreover have "set (currentKeys s') = set (ms @ [c])" using s'(3) cur(1) by simp
  ultimately have general: "\<exists>s1 s'. handleKey c ms e s = recordKeys (ms @ [c]) s1 \<and>
           storedCombos s1 = storedCombos s @ [currentKeys s] \<and>
           currentKeys s1 = [] \<and> \<not> recordedCharacterKey s1 \<and>
           recordTimer s1 = Some (recordTimeout s) \<and>
           recordKeys (ms @ [c]) s1 = Inr s' \<and>
           recordedSequence s' = recordedSequence s1 \<and>
           set (currentKeys s') = set (ms @ [c])"
    using hk st cur s'(1) by blast
  let ?down = "[Record cb Undefined Undefined Undefined None,
                Key ''a'' [] keydown, Key ''b'' [] keydown]"
  obtain u where u: "run ?down (init no_options) = Inr u"
    using run_consistent[OF init_consistent] by blast
  have cu: "consistent u"
    using reachable_consistent[OF reachable_run[OF reachable_init u]] .
  obtain v where v: "run [Key ''a'' [] keyup, Key ''b'' [] keyup, Fire] u = Inr v"
    using run_consistent[OF cu] by blast
  have fu: "storedCombos u = [[''a'']]" "currentKeys u = [''b'']"
    using u by (auto simp: eval_defs)
  have "run (?down @ [Key ''a'' [] keyup, Key ''b'' [] keyup, Fire]) (init no_options) = Inr v"
    using u v by (simp only: run_append sum.case)
  then have "completed v = [(cb, [JStr ''a'', JStr ''b''])]"
    by (auto simp: eval_defs)
  with u v fu general show ?thesis by blast
qed

theorem reentry_closes_first_witness:
  "\<exists>s. run [Record 7 Undefined Undefined Undefined None, Key ''a'' [] keydown]
            (init no_options) = Inr s \<and>
       recording s \<and> \<not> (truthy (noRepeat s) \<and> repeat keydown) \<and>
       etype keydown = ''keydown'' \<and> length ''b'' = 1 \<and> currentKeys s = [''a''] \<and>
       (\<exists>s1 s'. handleKey ''b'' [] keydown s = recordKeys [''b''] s1 \<and>
           storedCombos s1 = [[''a'']] \<and> currentKeys s1 = [] \<and>
           \<not> recordedCharacterKey s1 \<and> recordTimer s1 = Some (JNum 1000) \<and>
           recordKeys [''b''] s1 = Inr s' \<and> set (currentKeys s') = {''b''})"
proof -
  obtain s where s: "run [Record 7 Undefined Undefined Undefined None, Key ''a'' [] keydown]
            (init no_options) = Inr s"
    using run_consistent[OF init_consistent] by blast
  have r: "reachable s" using reachable_init s by (rule reachable_run)
  have f: "recording s" "\<not> (truthy (noRepeat s) \<and> repeat keydown)"
      "etype keydown = ''keydown''" "length ''b'' = 1" "currentKeys s = [''a'']"
      "storedCombos s = []" "recordTimeout s = JNum 1000"
    using s by (auto simp: eval_defs)
  have h: "\<exists>k\<in>set (currentKeys s). length k = 1" using f(5) by simp
  from reentry_closes_first[OF r f(1,2,3,4) h, of "[]" 7] f(5,6,7) s f(1,2,3,4)
  show ?thesis by (auto simp del: recordKeys.simps)
qed

section \<open>Starting a recording\<close>

text \<open>
  C6. A falsy argument of \<^verbatim>\<open>record\<close> for the timeout, for \<^verbatim>\<open>preventDefault\<close>
  or for \<^verbatim>\<open>noRepeat\<close> resolves to the value of the merged configuration: in any
  state, and so right after construction, where that value is the option given or else
  the default. Zero, false, the empty string, null and undefined are falsy.
\<close>

theorem falsy_argument_falls_back:
  assumes "\<not> truthy v"
  shows "recordTimeout (Mousetrap_record cb v pd nr pc s) = config_timeout s \<and>
         preventDefault (Mousetrap_record cb t v nr pc s) = config_preventDefault s \<and>
         noRepeat (Mousetrap_record cb t pd v pc s) = config_noRepeat s \<and>
         recordTimeout (Mousetrap_record cb v pd nr pc (init opts)) =
           merged (JNum 1000) (opt_timeout opts) \<and>
         preventDefault (Mousetrap_record cb t v nr pc (init opts)) =
           merged (JBool False) (opt_preventDefault opts) \<and>
         noRepeat (Mousetrap_record cb t pd v pc (init opts)) =
           merged (JBool False) (opt_noRepeat opts) \<and>
         \<not> truthy (JNum 0) \<and> \<not> truthy (JBool False) \<and> \<not> truthy (JStr []) \<and>
         \<not> truthy Null \<and> \<not> truthy Undefined"
  using assms by (simp add: Mousetrap_record_def js_or_def init_def)

theorem falsy_argument_falls_back_witness:
  "\<not> truthy (JNum 0) \<and>
   recordTimeout (Mousetrap_record 7 (JNum 0) (JBool False) (JStr []) None
     (init \<lparr>opt_timeout = Some (JNum 250), opt_preventDefault = Some (JBool True),
            opt_noRepeat = Some (JBool True)\<rparr>)) = JNum 250 \<and>
   preventDefault (Mousetrap_record 7 (JNum 3000) (JNum 0) (JStr []) None
     (init \<lparr>opt_timeout = Some (JNum 250), opt_preventDefault = Some (JBool True),
            opt_noRepeat = Some (JBool True)\<rparr>)) = JBool True \<and>
   noRepeat (Mousetrap_record 7 (JNum 3000) (JBool False) (JNum 0) None
     (init \<lparr>opt_timeout = Some (JNum 250), opt_preventDefault = Some (JBool True),
            opt_noRepeat = Some (JBool True)\<rparr>)) = JBool True"
proof -
  let ?opts = "\<lparr>opt_timeout = Some (JNum 250), opt_preventDefault = Some (JBool True),
            opt_noRepeat = Some (JBool True)\<rparr>"
  have z: "\<not> truthy (JNum 0)" by simp
  have m: "merged (JNum 1000) (opt_timeout ?opts) = JNum 250"
    "merged (JBool False) (opt_preventDefault ?opts) = JBool True"
    "merged (JBool False) (opt_noRepeat ?opts) = JBool True"
    by (simp_all add: merged_def)
  note w = falsy_argument_falls_back[OF z, where cb = 7 and pd = "JBool False"
        and nr = "JStr []" and pc = None and t = "JNum 3000" and opts = ?opts
        and s = "init ?opts", unfolded m]
  from w z show ?thesis by blast
qed

section \<open>The current combo\<close>

text \<open>
  C7. Adding a key that the current combo already holds returns the state as it is (the
  key array, and the log of progress invocations with it); and in every reachable state
  the current combo and every stored combo are free of duplicates, also after adding any
  key, which then is in the combo once.
\<close>

theorem add_key_idempotent:
  "(key \<in> set (currentKeys s) \<longrightarrow> recordKey key s = Inr s) \<and>
   (reachable s \<longrightarrow> distinct (currentKeys s) \<and> (\<forall>c\<in>set (storedCombos s). distinct c) \<and>
      (\<exists>s'. recordKey key s = Inr s' \<and> distinct (currentKeys s') \<and>
            set (currentKeys s') = insert key (set (currentKeys s))))"
proof -
  have "recordKey key s = Inr s" if "key \<in> set (currentKeys s)"
    using that by (simp add: recordKey_def currentKeys_def)
  moreover have "distinct (currentKeys s) \<and> (\<forall>c\<in>set (storedCombos s). distinct c) \<and>
      (\<exists>s'. recordKey key s = Inr s' \<and> distinct (currentKeys s') \<and>
            set (currentKeys s') = insert key (set (currentKeys s)))" if "reachable s"
  proof -
    have c: "consistent s" using that by (rule reachable_consistent)
    then have d: "\<And>a. distinct (heap s a)" by (simp add: consistent_def)
    have "distinct (keysOf (heap s) v)" for v by (cases v) (simp_all add: d)
    then have st: "\<forall>c\<in>set (storedCombos s). distinct c" by (auto simp: storedCombos_def)
    from recordKey_consistent[OF c, of key] obtain s' where
      s': "recordKey key s = Inr s'" "consistent s'"
        "set (currentKeys s') = insert key (set (currentKeys s))" by blast
    then have "distinct (currentKeys s')" by (simp add: consistent_def currentKeys_def)
    with s' st d show ?thesis by (auto simp: currentKeys_def)
  qed
  ultimately show ?thesis by blast
qed

theorem add_key_idempotent_witness:
  "\<exists>s. run [Record 7 Undefined Undefined Undefined (Some 9), Key ''a'' [''shift''] keydown]
            (init no_options) = Inr s \<and>
       currentKeys s = [''shift'', ''a''] \<and> recordKey ''a'' s = Inr s \<and>
       progressed s = [(9, [JStr ''shift'']), (9, [JStr ''shift+a''])] \<and>
       reachable s \<and> distinct (currentKeys s)"
proof -
  obtain s where s: "run [Record 7 Undefined Undefined Undefined (Some 9),
      Key ''a'' [''shift''] keydown] (init no_options) = Inr s"
    using run_consistent[OF init_consistent] by blast
  have r: "reachable s" using reachable_init s by (rule reachable_run)
  have f: "currentKeys s = [''shift'', ''a'']"
     "progressed s = [(9, [JStr ''shift'']), (9, [JStr ''shift+a''])]"
    using s by (auto simp: eval_defs)
  have m: "''a'' \<in> set (currentKeys s)" using f(1) by simp
  from add_key_idempotent[of "''a''" s] m r
  have "recordKey ''a'' s = Inr s" "distinct (currentKeys s)" by blast+
  with s f r show ?thesis by blast
qed

section \<open>The timer\<close>

lemma idle_no_timer: "reachable s \<Longrightarrow> \<not> recording s \<Longrightarrow> recordTimer s = None"
  using reachable_consistent[of s] by (simp add: consistent_def)

text \<open>
  The boundary test is the right one: a step closes a combo, in that it appends the
  current key array to the stored sequence, exactly when \<open>closesCombo\<close> holds.
\<close>

lemma finishRecording_sequence: "finishRecording s = Inr s' \<Longrightarrow> recordedSequence s' = []"
  by (auto simp: finishRecording_def resetRecorded_def split: option.splits sum.splits)

lemma closesCombo_appends:
  assumes "consistent s" and "step ev s = Inr s'"
  shows "closesCombo ev s \<longleftrightarrow>
           recordedSequence s' = recordedSequence s @ [JArr (currentRecordedKeys s)]"
proof (cases ev)
  case (Record cb t pd nr pc)
  with assms(2) show ?thesis by (auto simp: Mousetrap_record_def)
next
  case Fire
  with assms(2) show ?thesis
    by (auto simp: timerFires_def split: option.splits dest: finishRecording_sequence)
next
  case (Key c ms e)
  consider "truthy (noRepeat s) \<and> repeat e"
    | "\<not> (truthy (noRepeat s) \<and> repeat e)" "\<not> recording s"
    | "\<not> (truthy (noRepeat s) \<and> repeat e)" "recording s" "etype e = ''keydown''"
      "length c = 1 \<and> recordedCharacterKey s"
    | "\<not> (truthy (noRepeat s) \<and> repeat e)" "recording s" "etype e = ''keydown''"
      "\<not> (length c = 1 \<and> recordedCharacterKey s)"
    | "\<not> (truthy (noRepeat s) \<and> repeat e)" "recording s" "etype e \<noteq> ''keydown''"
      "etype e = ''keyup'' \<and> currentKeys s \<noteq> []"
    | "\<not> (truthy (noRepeat s) \<and> repeat e)" "recording s" "etype e \<noteq> ''keydown''"
      "\<not> (etype e = ''keyup'' \<and> currentKeys s \<noteq> [])"
    by blast
  then show ?thesis
  proof cases
    case 1
    with assms(2) Key show ?thesis by (simp add: handleKey_dropped)
  next
    case 2
    from handleKey_forwards[OF 2] assms(2) Key
    have "s' = s\<lparr>forwarded := forwarded s @ [(c, ms, e)]\<rparr>" by simp
    with 2 Key show ?thesis by simp
  next
    case 3
    let ?s1 = "recordCurrentCombo (applyPreventDefault s)"
    have "consistent ?s1"
      using assms(1) 3(2) by (intro recordCurrentCombo_consistent) simp_all
    from recordKeys_consistent[OF this, of "ms @ [c]"] obtain u where
      u: "recordKeys (ms @ [c]) ?s1 = Inr u" "kept ?s1 u" by blast
    with assms(2) Key have "s' = u"
      by (simp add: handleKey_reentry[OF 3] del: recordKeys.simps)
    with u(2) have "recordedSequence s' = recordedSequence s @ [JArr (currentRecordedKeys s)]"
      by (simp add: kept_def recordCurrentCombo_def restartRecordTimer_def)
    with 3 Key show ?thesis by simp
  next
    case 4
    have "consistent (applyPreventDefault s)" using assms(1) by simp
    from recordKeys_consistent[OF this, of "ms @ [c]"] obtain u where
      u: "recordKeys (ms @ [c]) (applyPreventDefault s) = Inr u"
        "kept (applyPreventDefault s) u" by blast
    with assms(2) Key have "s' = u"
      by (simp add: handleKey_keydown[OF 4] del: recordKeys.simps)
    with u(2) have "recordedSequence s' = recordedSequence s" by (simp add: kept_def)
    with 4 Key show ?thesis by simp
  next
    case 5
    from handleKey_release[OF 5] assms(2) Key
    have "s' = recordCurrentCombo (applyPreventDefault s)" by simp
    then have "recordedSequence s' = recordedSequence s @ [JArr (currentRecordedKeys s)]"
      by (simp add: recordCurrentCombo_def restartRecordTimer_def)
    with 5 Key show ?thesis by simp
  next
    case 6
    from handleKey_other[OF 6] assms(2) Key
    have "s' = applyPreventDefault s" by simp
    with 6 Key show ?thesis by simp
  qed
qed

lemma quiet_step:
  assumes "consistent s" and "recording s" and "recordTimer s = None"
    and "\<not> isRecord ev" and "\<not> closesCombo ev s"
  shows "\<exists>s'. step ev s = Inr s' \<and> consistent s' \<and> recording s' \<and>
              recordTimer s' = None \<and> completed s' = completed s"
proof (cases ev)
  case (Record cb t pd nr pc)
  with assms(4) show ?thesis by simp
next
  case Fire
  with assms show ?thesis by (simp add: timerFires_def)
next
  case (Key c ms e)
  show ?thesis
  proof (cases "truthy (noRepeat s) \<and> repeat e")
    case True
    with assms Key show ?thesis by (simp add: handleKey_dropped)
  next
    case live: False
    show ?thesis
    proof (cases "etype e = ''keydown''")
      case True
      with assms(2,5) Key live have nore: "\<not> (length c = 1 \<and> recordedCharacterKey s)"
        by simp
      have "consistent (applyPreventDefault s)" using assms(1) by simp
      from recordKeys_consistent[OF this, of "ms @ [c]"] obtain s' where
        s': "recordKeys (ms @ [c]) (applyPreventDefault s) = Inr s'" "consistent s'"
          "kept (applyPreventDefault s) s'" by blast
      with assms(2,3) Key show ?thesis
        by (simp add: handleKey_keydown[OF live assms(2) True nore] kept_def
            del: recordKeys.simps)
    next
      case False
      with assms(2,5) Key live have "\<not> (etype e = ''keyup'' \<and> currentKeys s \<noteq> [])"
        by simp
      from handleKey_other[OF live assms(2) False this] assms(1,2,3) Key
      show ?thesis by simp
    qed
  qed
qed

lemma quiet_run:
  assumes "consistent s" and "recording s" and "recordTimer s = None" and "quiet evs s"
  shows "\<exists>s'. run evs s = Inr s' \<and> recordTimer s' = None \<and> recording s' \<and>
              completed s' = completed s"
  using assms
proof (induction evs arbitrary: s)
  case Nil
  then show ?case by simp
next
  case (Cons ev evs)
  from Cons.prems(4) have q: "\<not> isRecord ev" "\<not> closesCombo ev s" by simp_all
  from quiet_step[OF Cons.prems(1,2,3) q] obtain s1 where
    s1: "step ev s = Inr s1" "consistent s1" "recording s1" "recordTimer s1 = None"
      "completed s1 = completed s" by blast
  from Cons.prems(4) s1(1) have "quiet evs s1" by simp
  from Cons.IH[OF s1(2,3,4) this] s1(1,5) show ?case by simp
qed

lemma finishRecording_timer: "finishRecording s = Inr s' \<Longrightarrow> recordTimer s' = recordTimer s"
  by (auto simp: finishRecording_def resetRecorded_def split: option.splits sum.splits)

lemma timerFires_timer: "timerFires s = Inr s' \<Longrightarrow> recordTimer s' = None"
  by (auto simp: timerFires_def split: option.splits dest: finishRecording_timer)

lemma timer_only_on_boundary:
  assumes "consistent s" and "step ev s = Inr s'" and "\<not> closesCombo ev s"
  shows "recordTimer s' = recordTimer s \<or> recordTimer s' = None"
proof (cases ev)
  case (Record cb t pd nr pc)
  with assms(2) show ?thesis by (auto simp: Mousetrap_record_def)
next
  case Fire
  with assms(2) show ?thesis by (simp add: timerFires_timer)
next
  case (Key c ms e)
  show ?thesis
  proof (cases "truthy (noRepeat s) \<and> repeat e")
    case True
    with assms(2) Key show ?thesis by (simp add: handleKey_dropped)
  next
    case live: False
    show ?thesis
    proof (cases "recording s")
      case False
      from handleKey_forwards[OF live False] assms(2) Key
      have "s' = s\<lparr>forwarded := forwarded s @ [(c, ms, e)]\<rparr>" by simp
      then show ?thesis by simp
    next
      case rec: True
      show ?thesis
      proof (cases "etype e = ''keydown''")
        case True
        with assms(3) Key live rec have nore: "\<not> (length c = 1 \<and> recordedCharacterKey s)"
          by simp
        have "consistent (applyPreventDefault s)" using assms(1) by simp
        from recordKeys_consistent[OF this, of "ms @ [c]"] obtain u where
          u: "recordKeys (ms @ [c]) (applyPreventDefault s) = Inr u"
            "kept (applyPreventDefault s) u" by blast
        with assms(2) Key have "s' = u"
          by (simp add: handleKey_keydown[OF live rec True nore] del: recordKeys.simps)
        with u(2) show ?thesis by (simp add: kept_def)
      next
        case False
        with assms(3) Key live rec have "\<not> (etype e = ''keyup'' \<and> currentKeys s \<noteq> [])"
          by simp
        from handleKey_other[OF live rec False this] assms(2) Key
        have "s' = applyPreventDefault s" by simp
        then show ?thesis by simp
      qed
    qed
  qed
qed

text \<open>
  C10. \<^verbatim>\<open>record\<close> leaves the timer as it is, and a step that is not a combo
  boundary leaves it as it is or, when it is the timer's fire, clears it. So when
  \<^verbatim>\<open>record\<close> is called in a reachable state with no fire scheduled, which is the
  case in every state that is not recording, then after any events of that session among
  which there is no combo boundary, no fire is scheduled, the recording flag is true and
  the completion callback has not been invoked.
\<close>

theorem no_boundary_never_completes:
  assumes "reachable s" and "\<not> recording s \<or> recordTimer s = None"
    and "quiet evs (Mousetrap_record cb t pd nr pc s)"
  shows "recordTimer (Mousetrap_record cb t pd nr pc s) = recordTimer s \<and>
         (\<exists>s'. run evs (Mousetrap_record cb t pd nr pc s) = Inr s' \<and>
               recordTimer s' = None \<and> recording s' \<and> completed s' = completed s) \<and>
         (\<forall>ev u u'. reachable u \<and> step ev u = Inr u' \<and> \<not> closesCombo ev u \<longrightarrow>
               recordTimer u' = recordTimer u \<or> recordTimer u' = None)"
proof -
  let ?s0 = "Mousetrap_record cb t pd nr pc s"
  have none: "recordTimer s = None" using assms(1,2) idle_no_timer by blast
  have c0: "consistent ?s0"
    using reachable_consistent[OF assms(1)] by (rule Mousetrap_record_consistent)
  have f0: "recording ?s0" "recordTimer ?s0 = None" "completed ?s0 = completed s"
    using none by (simp_all add: Mousetrap_record_def)
  from quiet_run[OF c0 f0(1,2) assms(3)] f0(3)
  have "\<exists>s'. run evs ?s0 = Inr s' \<and> recordTimer s' = None \<and> recording s' \<and>
          completed s' = completed s" by simp
  moreover have "recordTimer ?s0 = recordTimer s" by (simp add: Mousetrap_record_def)
  moreover have "\<forall>ev u u'. reachable u \<and> step ev u = Inr u' \<and> \<not> closesCombo ev u \<longrightarrow>
               recordTimer u' = recordTimer u \<or> recordTimer u' = None"
  proof (intro allI impI)
    fix ev u u'
    assume a: "reachable u \<and> step ev u = Inr u' \<and> \<not> closesCombo ev u"
    then have "consistent u" by (simp add: reachable_consistent)
    with a show "recordTimer u' = recordTimer u \<or> recordTimer u' = None"
      by (intro timer_only_on_boundary[of u ev u']) simp_all
  qed
  ultimately show ?thesis by (intro conjI)
qed

theorem no_boundary_never_completes_witness:
  "reachable (init no_options) \<and> \<not> recording (init no_options) \<and>
   quiet [Key ''a'' [] keydown, Fire, Key ''ctrl'' [''ctrl''] keydown]
     (Mousetrap_record 7 Undefined Undefined Undefined None (init no_options)) \<and>
   (\<exists>s'. run [Key ''a'' [] keydown, Fire, Key ''ctrl'' [''ctrl''] keydown]
           (Mousetrap_record 7 Undefined Undefined Undefined None (init no_options)) = Inr s' \<and>
         recordTimer s' = None \<and> recording s' \<and> completed s' = [])"
proof -
  let ?evs = "[Key ''a'' [] keydown, Fire, Key ''ctrl'' [''ctrl''] keydown]"
  let ?s0 = "Mousetrap_record 7 Undefined Undefined Undefined None (init no_options)"
  have r: "reachable (init no_options)" by (rule reachable_init)
  have i: "\<not> recording (init no_options)" "completed (init no_options) = []"
    by (simp_all add: init_def)
  have q: "quiet ?evs ?s0" by (simp add: eval_defs)
  from no_boundary_never_completes[OF r disjI1[OF i(1)] q] i r q show ?thesis by simp
qed

section \<open>Normalizing again\<close>

text \<open>
  C8, as stated, fails: the normalizer turns the sequence of the combo \<open>k\<close>, \<open>ctrl\<close>
  into the sequence of the string \<open>ctrl+k\<close>, and on that sequence it raises a
  TypeError, since a string has no \<^verbatim>\<open>sort\<close> method.
\<close>

theorem normalize_twice_raises:
  "normalizeSequence (empty_heap(0 := [''k'', ''ctrl''])) [JArr 0] =
     Inr (empty_heap(0 := [''ctrl'', ''k'']), [JStr ''ctrl+k'']) \<and>
   normalizeSequence (empty_heap(0 := [''ctrl'', ''k''])) [JStr ''ctrl+k''] = Inl TypeError"
  by (simp add: compareKeys_def)

text \<open>
  C8, amended. On a sequence of key arrays, the normalizer run again over the same
  references, whose arrays the first run has sorted in place, gives the same strings in
  the same order and leaves every key array as the first run left it.
\<close>

theorem renormalize_sorted_arrays:
  assumes "list_all isArr vs"
  shows "\<exists>h' out. normalizeSequence h vs = Inr (h', out) \<and>
           normalizeSequence h' vs = Inr (h', out) \<and>
           out = map (\<lambda>v. JStr (normalizeCombo (keysOf h v))) vs \<and>
           length out = length vs"
proof -
  have 1: "normalizeSequence h vs =
             Inr (sortedAt h vs, map (\<lambda>v. JStr (normalizeCombo (keysOf h v))) vs)"
    using assms by (rule normalizeSequence_arrays)
  have "map (\<lambda>v. JStr (normalizeCombo (keysOf (sortedAt h vs) v))) vs
        = map (\<lambda>v. JStr (normalizeCombo (keysOf h v))) vs"
  proof (rule map_cong[OF refl])
    fix v assume "v \<in> set vs"
    with assms obtain a where "v = JArr a" by (auto simp: list_all_iff isArr_iff)
    then show "JStr (normalizeCombo (keysOf (sortedAt h vs) v)) =
               JStr (normalizeCombo (keysOf h v))"
      by (simp add: sortedAt_def normalizeCombo_sorted)
  qed
  then have 2: "normalizeSequence (sortedAt h vs) vs =
             Inr (sortedAt h vs, map (\<lambda>v. JStr (normalizeCombo (keysOf h v))) vs)"
    using normalizeSequence_arrays[OF assms, of "sortedAt h vs"] by (simp add: sortedAt_idem)
  from 1 2 show ?thesis by simp
qed

theorem renormalize_sorted_arrays_witness:
  "list_all isArr [JArr 0, JArr 1] \<and>
   normalizeSequence (empty_heap(0 := [''k'', ''ctrl''], 1 := [''c''])) [JArr 0, JArr 1] =
     Inr (empty_heap(0 := [''ctrl'', ''k''], 1 := [''c'']), [JStr ''ctrl+k'', JStr ''c'']) \<and>
   normalizeSequence (empty_heap(0 := [''ctrl'', ''k''], 1 := [''c''])) [JArr 0, JArr 1] =
     Inr (empty_heap(0 := [''ctrl'', ''k''], 1 := [''c'']), [JStr ''ctrl+k'', JStr ''c''])"
proof -
  let ?h = "empty_heap(0 := [''k'', ''ctrl''], 1 := [''c''])"
  have a: "list_all isArr [JArr 0, JArr 1]" by simp
  have n: "normalizeSequence ?h [JArr 0, JArr 1] =
     Inr (empty_heap(0 := [''ctrl'', ''k''], 1 := [''c'']), [JStr ''ctrl+k'', JStr ''c''])"
    by (simp add: compareKeys_def fun_upd_twist)
  from renormalize_sorted_arrays[OF a, of ?h] obtain h' out where
    w: "normalizeSequence ?h [JArr 0, JArr 1] = Inr (h', out)"
       "normalizeSequence h' [JArr 0, JArr 1] = Inr (h', out)" by blast
  from w(1)[unfolded n] have e: "h' = empty_heap(0 := [''ctrl'', ''k''], 1 := [''c''])"
    "out = [JStr ''ctrl+k'', JStr ''c'']" by simp_all
  from a n w(2)[unfolded e] show ?thesis by (intro conjI)
qed

section \<open>Where the code departs from the claims\<close>

text \<open>
  C4. With \<^verbatim>\<open>noRepeat\<close> configured, a repeated key-down that arrives while the
  dispatcher is not recording is dropped: the test for a repeat (line 100) stands in
  front of the test for the recording flag (line 106), and the handler returns with the
  state unchanged and nothing forwarded. (\<open>handleKey_forwards\<close> is what holds: an event
  that is not such a repeat is forwarded as it is.)
\<close>

theorem repeat_dropped_while_idle:
  "\<not> recording (init (no_options\<lparr>opt_noRepeat := Some (JBool True)\<rparr>)) \<and>
   handleKey ''a'' [] (keydown\<lparr>repeat := True\<rparr>)
     (init (no_options\<lparr>opt_noRepeat := Some (JBool True)\<rparr>)) =
     Inr (init (no_options\<lparr>opt_noRepeat := Some (JBool True)\<rparr>)) \<and>
   forwarded (init (no_options\<lparr>opt_noRepeat := Some (JBool True)\<rparr>)) = []"
  by (simp add: eval_defs)

text \<open>
  C5. The progress report normalizes a copy of the sequence array only; the key arrays
  are shared with it and are sorted in place. After \<open>k\<close> and then \<open>ctrl\<close> the current
  key array holds \<open>k\<close>, \<open>ctrl\<close> when the report starts, and \<open>ctrl\<close>, \<open>k\<close> after it.
\<close>

theorem progress_sorts_live_keys:
  "\<exists>s s'. run [Record 7 Undefined Undefined Undefined (Some 9), Key ''k'' [] keydown]
              (init no_options) = Inr s \<and>
          currentKeys (pushKey ''ctrl'' s) = [''k'', ''ctrl''] \<and>
          reportProgress (pushKey ''ctrl'' s) = Inr s' \<and>
          progressed s' = progressed s @ [(9, [JStr ''ctrl+k''])] \<and>
          currentKeys s' = [''ctrl'', ''k'']"
proof -
  obtain s where s: "run [Record 7 Undefined Undefined Undefined (Some 9), Key ''k'' [] keydown]
              (init no_options) = Inr s"
    using run_consistent[OF init_consistent] by blast
  have c: "consistent (pushKey ''ctrl'' s)"
    using s by (intro pushKey_consistent reachable_consistent[OF reachable_run[OF reachable_init s]])
      (auto simp: eval_defs)
  obtain s' where s': "reportProgress (pushKey ''ctrl'' s) = Inr s'"
    using reportProgress_consistent[OF c] by blast
  have "currentKeys (pushKey ''ctrl'' s) = [''k'', ''ctrl'']"
    "progressed s' = progressed s @ [(9, [JStr ''ctrl+k''])]"
    "currentKeys s' = [''ctrl'', ''k'']"
    using s s' by (auto simp: eval_defs)
  with s s' show ?thesis by blast
qed

text \<open>
  C9. \<^verbatim>\<open>_finishRecording\<close> empties the current key array and leaves the flag. When
  the timer fires while \<open>b\<close> is held, the next state has an empty current combo with
  the flag set, and the first key-down of the next recording closes that empty combo:
  the second callback receives the empty string before \<open>c\<close>.
\<close>

theorem flag_survives_completion:
  "\<exists>s s'. run [Record 7 Undefined Undefined Undefined None, Key ''a'' [] keydown,
               Key ''a'' [] keyup, Key ''b'' [] keydown, Fire] (init no_options) = Inr s \<and>
          completed s = [(7, [JStr ''a''])] \<and> \<not> recording s \<and>
          currentKeys s = [] \<and> recordedCharacterKey s \<and>
          run [Record 8 Undefined Undefined Undefined None, Key ''c'' [] keydown,
               Key ''c'' [] keyup, Fire] s = Inr s' \<and>
          completed s' = [(7, [JStr ''a'']), (8, [JStr [], JStr ''c''])]"
proof -
  let ?one = "[Record 7 Undefined Undefined Undefined None, Key ''a'' [] keydown,
               Key ''a'' [] keyup, Key ''b'' [] keydown, Fire]"
  let ?two = "[Record 8 Undefined Undefined Undefined None, Key ''c'' [] keydown,
               Key ''c'' [] keyup, Fire]"
  obtain s where s: "run ?one (init no_options) = Inr s"
    using run_consistent[OF init_consistent] by blast
  have cs: "consistent s"
    using reachable_consistent[OF reachable_run[OF reachable_init s]] .
  obtain s' where s': "run ?two s = Inr s'"
    using run_consistent[OF cs] by blast
  have f: "completed s = [(7, [JStr ''a''])]" "\<not> recording s" "currentKeys s = []"
    "recordedCharacterKey s"
    using s by (auto simp: eval_defs)
  have "run (?one @ ?two) (init no_options) = Inr s'"
    using s s' by (simp only: run_append sum.case)
  then have "completed s' = [(7, [JStr ''a'']), (8, [JStr [], JStr ''c''])]"
    by (auto simp: eval_defs)
  with s s' f show ?thesis by blast
qed

end
